theory Spec2Isabelle
  imports Complex_Main "HOL-Library.Multiset" "HOL-Library.Sublist"
begin

section \<open>Blackjack engine of \<^verbatim>\<open>blackjack.py\<close>\<close>

text \<open>
  The development follows the Python source class by class.  Objects that the source
  mutates in place (\<^verbatim>\<open>Deck\<close>, \<^verbatim>\<open>Hand\<close>) are passed and returned explicitly, exceptions
  are values of type \<open>error\<close> on the left of a sum, and the console output
  (\<^verbatim>\<open>print\<close>, the card art) is left out because no result depends on it.
\<close>

datatype error =
    IndexError       \<comment> \<open>raised by \<^verbatim>\<open>list.pop()\<close> on an empty list\<close>
  | OverflowError    \<comment> \<open>raised when an int does not fit a float, or a float is infinite\<close>
  | EmptyShoeError   \<comment> \<open>the error kind named in the specification; no source line raises it\<close>

subsection \<open>Card\<close>

text \<open>
  \<^verbatim>\<open>Card.__init__(self, suit, rank)\<close> stores two strings.  Strings are byte lists; the four
  suit symbols of the source are written as their UTF-8 encodings.
\<close>

record card =
  rank :: string
  suit :: string

definition Card :: "string \<Rightarrow> string \<Rightarrow> card" where
  "Card s r = \<lparr>rank = r, suit = s\<rparr>"

subsection \<open>Deck\<close>

definition suits :: "string list" where
  "suits = [[CHR 0xE2, CHR 0x99, CHR 0xA0], [CHR 0xE2, CHR 0x99, CHR 0xA5],
            [CHR 0xE2, CHR 0x99, CHR 0xA6], [CHR 0xE2, CHR 0x99, CHR 0xA3]]"

text \<open>The list literal \<^verbatim>\<open>ranks\<close> of the source, written in three pieces.\<close>

definition ranks :: "string list" where
  "ranks = [''2'', ''3'', ''4'', ''5''] @ [''6'', ''7'', ''8'', ''9'', ''10''] @
           [''J'', ''Q'', ''K'', ''A'']"

text \<open>The two nested index loops of \<^verbatim>\<open>Deck.__init__\<close>, before the shuffle.\<close>

definition ordered_deck :: "card list" where
  "ordered_deck =
     concat (map (\<lambda>i. map (\<lambda>j. Card (suits ! i) (ranks ! j)) [0..<length ranks])
                 [0..<length suits])"

text \<open>
  \<^verbatim>\<open>random.shuffle(x)\<close> is the library's Fisher-Yates loop
  \<^verbatim>\<open>for i in reversed(range(1, len(x))): j = randbelow(i + 1); x[i], x[j] = x[j], x[i]\<close>.
  The random source is a parameter: \<open>rnd i\<close> is the number drawn at index \<open>i\<close>, reduced
  into the range \<open>0..i\<close> that \<^verbatim>\<open>randbelow(i + 1)\<close> guarantees.
\<close>

definition swap :: "nat \<Rightarrow> nat \<Rightarrow> 'a list \<Rightarrow> 'a list" where
  "swap i j xs = xs[i := xs ! j, j := xs ! i]"

fun shuffle_loop :: "(nat \<Rightarrow> nat) \<Rightarrow> nat \<Rightarrow> 'a list \<Rightarrow> 'a list" where
  "shuffle_loop rnd 0 xs = xs"
| "shuffle_loop rnd (Suc i) xs =
     shuffle_loop rnd i (swap (Suc i) (rnd (Suc i) mod (Suc i + 1)) xs)"

definition shuffle :: "(nat \<Rightarrow> nat) \<Rightarrow> 'a list \<Rightarrow> 'a list" where
  "shuffle rnd xs = shuffle_loop rnd (length xs - 1) xs"

definition Deck_init :: "(nat \<Rightarrow> nat) \<Rightarrow> card list" where
  "Deck_init rnd = shuffle rnd ordered_deck"

text \<open>\<^verbatim>\<open>deal\<close> is \<^verbatim>\<open>self.deck.pop()\<close>: the last card and the deck without it.\<close>

definition deal :: "card list \<Rightarrow> error + (card \<times> card list)" where
  "deal d = (if d = [] then Inl IndexError else Inr (last d, butlast d))"

text \<open>\<open>n\<close> successive calls of \<^verbatim>\<open>deal\<close>, collecting the cards in the order drawn.\<close>

fun deal_many :: "nat \<Rightarrow> card list \<Rightarrow> error + (card list \<times> card list)" where
  "deal_many 0 d = Inr ([], d)"
| "deal_many (Suc n) d =
     (case deal d of
        Inl e \<Rightarrow> Inl e
      | Inr (c, d') \<Rightarrow>
          (case deal_many n d' of
             Inl e \<Rightarrow> Inl e
           | Inr (cs, d'') \<Rightarrow> Inr (c # cs, d'')))"

subsection \<open>Hand\<close>

record hand =
  cards :: "card list"
  total :: int
  trigger :: bool

definition Hand_init :: hand where
  "Hand_init = \<lparr>cards = [], total = 0, trigger = True\<rparr>"

text \<open>
  \<^verbatim>\<open>str.isdigit\<close> and \<^verbatim>\<open>int\<close> on ASCII strings: a non-empty string of decimal digits, read
  in base ten.  (Ranks are ASCII in every card the source builds.)
\<close>

definition isdigit :: "string \<Rightarrow> bool" where
  "isdigit s = (s \<noteq> [] \<and> list_all (\<lambda>c. c \<in> set ''0123456789'') s)"

definition int_str :: "string \<Rightarrow> int" where
  "int_str s = foldl (\<lambda>acc c. 10 * acc + (of_char c - 48)) 0 s"

text \<open>The body of the \<^verbatim>\<open>for\<close> loop of \<^verbatim>\<open>calculate\<close>, on the pair \<open>(total, aces)\<close>.\<close>

fun calculate_for :: "int \<times> int \<Rightarrow> card \<Rightarrow> int \<times> int" where
  "calculate_for (tot, aces) c =
     (let number = rank c in
      if isdigit number then (tot + int_str number, aces)
      else if number \<in> set [''K'', ''Q'', ''J''] then (tot + 10, aces)
      else (tot + 11, aces + 1))"

text \<open>The \<^verbatim>\<open>while total>21 and aces>0\<close> loop.\<close>

function calculate_while :: "int \<Rightarrow> int \<Rightarrow> int" where
  "calculate_while tot aces =
     (if tot > 21 \<and> aces > 0 then calculate_while (tot - 10) (aces - 1) else tot)"
  by pat_completeness auto
termination
  by (relation "measure (\<lambda>(tot, aces). nat aces)") auto

declare calculate_while.simps [simp del]

definition calculate :: "hand \<Rightarrow> hand" where
  "calculate h =
     (case foldl calculate_for (0, 0) (cards h) of
        (tot, aces) \<Rightarrow> h\<lparr>total := calculate_while tot aces\<rparr>)"

definition bust :: "hand \<Rightarrow> hand" where
  "bust h = h\<lparr>trigger := False\<rparr>"

definition add_card :: "hand \<Rightarrow> card \<Rightarrow> hand" where
  "add_card h c =
     (let h1 = h\<lparr>cards := cards h @ [c]\<rparr>;
          h2 = calculate h1
      in if total h2 > 21 then bust h2 else h2)"

text \<open>A fresh hand to which the cards \<open>cs\<close> were added one by one.\<close>

definition hand_of :: "card list \<Rightarrow> hand" where
  "hand_of cs = foldl add_card Hand_init cs"

subsection \<open>The dealer's turn\<close>

text \<open>
  \<^verbatim>\<open>dealer_turn(dealer_hand, deck)\<close> returns the total; the model also returns the hand
  and the deck it leaves behind.  An empty deck makes \<^verbatim>\<open>deal\<close> raise.
\<close>

function dealer_turn :: "hand \<Rightarrow> card list \<Rightarrow> error + (int \<times> hand \<times> card list)" where
  "dealer_turn dealer_hand deck =
     (if total dealer_hand < 17 \<and> trigger dealer_hand then
        (case deal deck of
           Inl e \<Rightarrow> Inl e
         | Inr (c, deck') \<Rightarrow>
             (let h = add_card dealer_hand c in
              if \<not> trigger h then Inr (total h, h, deck')
              else dealer_turn h deck'))
      else Inr (total dealer_hand, dealer_hand, deck))"
  by pat_completeness auto
termination
  by (relation "measure (\<lambda>(h, d). length d)") (auto simp: deal_def split: if_splits)

declare dealer_turn.simps [simp del]

subsection \<open>Settlement\<close>

text \<open>
  \<^verbatim>\<open>int(bet_amount * 1.5)\<close> is floating-point arithmetic: the bet is converted to a
  binary64 number, multiplied by the binary64 number \<open>1.5\<close>, and the product is truncated.
  Finite binary64 values are modelled by the rationals they denote.  \<open>round_double\<close> rounds
  a rational to the nearest number with a 53-bit significand, ties to the even significand;
  it is used only at \<open>0\<close> and at magnitudes of at least \<open>1\<close>, where the binade is given by
  the bit length of the integer part (subnormal numbers do not occur).  A rounded magnitude
  of \<open>2 ^ 1024\<close> or more does not fit: the conversion of the int raises
  \<^verbatim>\<open>OverflowError\<close>, the product becomes an infinity, and \<^verbatim>\<open>int\<close> of an infinity raises
  \<^verbatim>\<open>OverflowError\<close> as well.
\<close>

fun bit_length :: "nat \<Rightarrow> nat" where
  "bit_length n = (if n = 0 then 0 else Suc (bit_length (n div 2)))"

declare bit_length.simps [simp del]

definition round_half_even :: "rat \<Rightarrow> int" where
  "round_half_even q =
     (let f = \<lfloor>q\<rfloor>; r = q - of_int f in
      if r < 1 / 2 then f
      else if 1 / 2 < r then f + 1
      else if even f then f else f + 1)"

definition ulp :: "rat \<Rightarrow> rat" where
  "ulp q =
     (let k = bit_length (nat \<lfloor>\<bar>q\<bar>\<rfloor>) in
      if 53 \<le> k then 2 ^ (k - 53) else 1 / 2 ^ (53 - k))"

definition round_double :: "rat \<Rightarrow> rat" where
  "round_double q = of_int (round_half_even (q / ulp q)) * ulp q"

datatype py_float = Finite rat | PosInf | NegInf

definition float_of_int :: "int \<Rightarrow> error + rat" where
  "float_of_int n =
     (let r = round_double (of_int n) in
      if 2 ^ 1024 \<le> \<bar>r\<bar> then Inl OverflowError else Inr r)"

definition float_mul :: "rat \<Rightarrow> rat \<Rightarrow> py_float" where
  "float_mul x y =
     (let r = round_double (x * y) in
      if 2 ^ 1024 \<le> r then PosInf
      else if r \<le> - (2 ^ 1024) then NegInf
      else Finite r)"

fun int_of_float :: "py_float \<Rightarrow> error + int" where
  "int_of_float (Finite q) = Inr (if 0 \<le> q then \<lfloor>q\<rfloor> else \<lceil>q\<rceil>)"
| "int_of_float PosInf = Inl OverflowError"
| "int_of_float NegInf = Inl OverflowError"

text \<open>The two local flags of \<^verbatim>\<open>determine_winner\<close>.\<close>

definition player_blackjack :: "hand \<Rightarrow> bool" where
  "player_blackjack player_hand =
     (length (cards player_hand) = 2 \<and> total player_hand = 21)"

definition dealer_blackjack :: "hand \<Rightarrow> bool" where
  "dealer_blackjack dealer_hand =
     (length (cards dealer_hand) = 2 \<and> total dealer_hand = 21)"

definition determine_winner :: "hand \<Rightarrow> hand \<Rightarrow> int \<Rightarrow> error + int" where
  "determine_winner player_hand dealer_hand bet_amount =
     (let player_total = total player_hand;
          dealer_total = total dealer_hand
      in
      if player_blackjack player_hand \<and> dealer_blackjack dealer_hand then Inr 0
      else if player_blackjack player_hand then
        (case float_of_int bet_amount of
           Inl e \<Rightarrow> Inl e
         | Inr x \<Rightarrow> int_of_float (float_mul x (3 / 2)))
      else if dealer_blackjack dealer_hand then Inr (- bet_amount)
      else if \<not> trigger player_hand then Inr (- bet_amount)
      else if \<not> trigger dealer_hand then Inr bet_amount
      else if player_total > dealer_total then Inr bet_amount
      else if dealer_total > player_total then Inr (- bet_amount)
      else Inr 0)"

subsection \<open>Notions used in the statements\<close>

text \<open>
  What one card adds to the raw total in \<^verbatim>\<open>calculate\<close>, and which cards take the ace
  branch (the final \<^verbatim>\<open>else\<close>), as functions of the rank.
\<close>

definition rank_value :: "string \<Rightarrow> int" where
  "rank_value r =
     (if isdigit r then int_str r
      else if r \<in> set [''K'', ''Q'', ''J''] then 10 else 11)"

definition rank_is_ace :: "string \<Rightarrow> bool" where
  "rank_is_ace r = (\<not> isdigit r \<and> r \<notin> set [''K'', ''Q'', ''J''])"

definition raw_total :: "string list \<Rightarrow> int" where
  "raw_total rs = sum_list (map rank_value rs)"

definition ace_count :: "string list \<Rightarrow> int" where
  "ace_count rs = int (length (filter rank_is_ace rs))"

text \<open>The total with every ace counted as 1.\<close>

definition hard_total :: "string list \<Rightarrow> int" where
  "hard_total rs = raw_total rs - 10 * ace_count rs"

text \<open>The value \<^verbatim>\<open>calculate\<close> stores, as a function of the cards.\<close>

definition score :: "card list \<Rightarrow> int" where
  "score cs = (case foldl calculate_for (0, 0) cs of (tot, aces) \<Rightarrow> calculate_while tot aces)"

text \<open>
  The scoring rule in the words of the specification: a table of contributions for the
  thirteen ranks, an ace counter, and the reduction loop on that counter.
\<close>

definition spec_contribution :: "string \<Rightarrow> int" where
  "spec_contribution r =
     (if r = ''2'' then 2 else if r = ''3'' then 3 else if r = ''4'' then 4
      else if r = ''5'' then 5 else if r = ''6'' then 6 else if r = ''7'' then 7
      else if r = ''8'' then 8 else if r = ''9'' then 9 else if r = ''10'' then 10
      else if r = ''J'' \<or> r = ''Q'' \<or> r = ''K'' then 10
      else if r = ''A'' then 11 else 0)"

fun soft_reduce :: "int \<Rightarrow> nat \<Rightarrow> int" where
  "soft_reduce t 0 = t"
| "soft_reduce t (Suc n) = (if 21 < t then soft_reduce (t - 10) n else t)"

definition spec_total :: "string list \<Rightarrow> int" where
  "spec_total rs =
     soft_reduce (sum_list (map spec_contribution rs)) (length (filter (\<lambda>r. r = ''A'') rs))"

text \<open>
  The totals of all assignments of 11 or 1 to each ace of a list of ranks; the other ranks
  keep the value \<^verbatim>\<open>calculate\<close> gives them.
\<close>

fun assignment_totals :: "string list \<Rightarrow> int list" where
  "assignment_totals [] = [0]"
| "assignment_totals (r # rs) =
     (if rank_is_ace r
      then map (\<lambda>t. 11 + t) (assignment_totals rs) @ map (\<lambda>t. 1 + t) (assignment_totals rs)
      else map (\<lambda>t. rank_value r + t) (assignment_totals rs))"

section \<open>Properties of the scoring\<close>

subsection \<open>The two loops of \<^verbatim>\<open>calculate\<close>\<close>

lemma foldl_calculate_for:
  "foldl calculate_for (t, a) cs =
     (t + raw_total (map rank cs), a + ace_count (map rank cs))"
  by (induction cs arbitrary: t a)
     (auto simp: raw_total_def ace_count_def rank_value_def rank_is_ace_def Let_def)

lemma int_str_acc_nonneg:
  "0 \<le> acc \<Longrightarrow> list_all (\<lambda>c. c \<in> set ''0123456789'') s \<Longrightarrow>
   0 \<le> foldl (\<lambda>acc c. 10 * acc + (of_char c - 48)) (acc::int) s"
proof (induction s arbitrary: acc)
  case Nil
  then show ?case by simp
next
  case (Cons c s)
  from Cons.prems(2) have "c \<in> set ''0123456789''" by simp
  then have "(0::int) \<le> of_char c - 48" by auto
  with Cons.prems(1) have "0 \<le> 10 * acc + (of_char c - 48)" by simp
  moreover from Cons.prems(2) have "list_all (\<lambda>c. c \<in> set ''0123456789'') s" by simp
  ultimately show ?case using Cons.IH by simp
qed

lemma int_str_nonneg: "isdigit s \<Longrightarrow> 0 \<le> int_str s"
  unfolding isdigit_def int_str_def by (rule int_str_acc_nonneg) auto

lemma calculate_while_step:
  "21 < tot \<Longrightarrow> 0 < aces \<Longrightarrow>
   calculate_while tot aces = calculate_while (tot - 10) (aces - 1)"
  by (subst calculate_while.simps) simp

lemma calculate_while_stop:
  "\<not> (21 < tot \<and> 0 < aces) \<Longrightarrow> calculate_while tot aces = tot"
  by (subst calculate_while.simps) auto

lemma calculate_while_le: "calculate_while t a \<le> t"
proof (induction t a rule: calculate_while.induct)
  case (1 tot aces)
  show ?case
  proof (cases "tot > 21 \<and> aces > 0")
    case True
    with 1 have "calculate_while (tot - 10) (aces - 1) \<le> tot - 10" by simp
    with True show ?thesis by (simp add: calculate_while_step)
  next
    case False
    then show ?thesis by (simp add: calculate_while_stop)
  qed
qed

lemma calculate_while_ge: "0 \<le> a \<Longrightarrow> t - 10 * a \<le> calculate_while t a"
proof (induction t a rule: calculate_while.induct)
  case (1 tot aces)
  show ?case
  proof (cases "tot > 21 \<and> aces > 0")
    case True
    with 1 have "tot - 10 - 10 * (aces - 1) \<le> calculate_while (tot - 10) (aces - 1)" by simp
    with True show ?thesis by (simp add: calculate_while_step)
  next
    case False
    with 1 show ?thesis by (simp add: calculate_while_stop)
  qed
qed

lemma calculate_while_bust:
  "0 \<le> a \<Longrightarrow> 21 < calculate_while t a \<Longrightarrow> calculate_while t a = t - 10 * a"
proof (induction t a rule: calculate_while.induct)
  case (1 tot aces)
  show ?case
  proof (cases "tot > 21 \<and> aces > 0")
    case True
    have eq: "calculate_while tot aces = calculate_while (tot - 10) (aces - 1)"
      using True by (simp add: calculate_while_step)
    with 1 True have "calculate_while (tot - 10) (aces - 1) = tot - 10 - 10 * (aces - 1)"
      by simp
    with eq show ?thesis by simp
  next
    case False
    then have eq: "calculate_while tot aces = tot" by (simp add: calculate_while_stop)
    with 1 False show ?thesis by simp
  qed
qed

lemma calculate_while_steps:
  "0 \<le> a \<Longrightarrow> \<exists>k. 0 \<le> k \<and> k \<le> a \<and> calculate_while t a = t - 10 * k"
proof (induction t a rule: calculate_while.induct)
  case (1 tot aces)
  show ?case
  proof (cases "tot > 21 \<and> aces > 0")
    case True
    have eq: "calculate_while tot aces = calculate_while (tot - 10) (aces - 1)"
      using True by (simp add: calculate_while_step)
    from 1 True obtain k where "0 \<le> k" "k \<le> aces - 1"
      "calculate_while (tot - 10) (aces - 1) = tot - 10 - 10 * k" by auto
    with eq have "0 \<le> k + 1 \<and> k + 1 \<le> aces \<and> calculate_while tot aces = tot - 10 * (k + 1)"
      by simp
    then show ?thesis by blast
  next
    case False
    then have "calculate_while tot aces = tot" by (simp add: calculate_while_stop)
    with 1 show ?thesis by (intro exI[of _ 0]) simp
  qed
qed

lemma calculate_while_tight:
  "calculate_while t a \<le> 21 \<Longrightarrow> calculate_while t a = t \<or> 11 < calculate_while t a"
proof (induction t a rule: calculate_while.induct)
  case (1 tot aces)
  show ?case
  proof (cases "tot > 21 \<and> aces > 0")
    case True
    have eq: "calculate_while tot aces = calculate_while (tot - 10) (aces - 1)"
      using True by (simp add: calculate_while_step)
    with 1 True have "calculate_while (tot - 10) (aces - 1) = tot - 10 \<or>
      11 < calculate_while (tot - 10) (aces - 1)" by simp
    with eq True show ?thesis by auto
  next
    case False
    then have "calculate_while tot aces = tot" by (simp add: calculate_while_stop)
    then show ?thesis by simp
  qed
qed

lemma score_eq: "score cs = calculate_while (raw_total (map rank cs)) (ace_count (map rank cs))"
  by (simp add: score_def foldl_calculate_for)

lemma rank_value_nonneg: "0 \<le> rank_value r"
  by (simp add: rank_value_def int_str_nonneg)

lemma rank_value_ace: "rank_is_ace r \<Longrightarrow> rank_value r = 11"
  by (simp add: rank_value_def rank_is_ace_def)

lemma ace_count_nonneg: "0 \<le> ace_count rs"
  by (simp add: ace_count_def)

lemma hard_total_snoc: "hard_total rs \<le> hard_total (rs @ [r])"
  using rank_value_nonneg [of r] rank_value_ace [of r]
  by (cases "rank_is_ace r") (simp_all add: hard_total_def raw_total_def ace_count_def)

lemma hard_total_le_score: "hard_total (map rank cs) \<le> score cs"
  unfolding score_eq hard_total_def by (rule calculate_while_ge) (rule ace_count_nonneg)

lemma score_bust: "21 < score cs \<Longrightarrow> score cs = hard_total (map rank cs)"
  unfolding score_eq hard_total_def by (rule calculate_while_bust) (rule ace_count_nonneg)

lemma score_bust_snoc: "21 < score cs \<Longrightarrow> 21 < score (cs @ [c])"
proof -
  assume b: "21 < score cs"
  with score_bust [of cs] have "21 < hard_total (map rank cs)" by simp
  also have "\<dots> \<le> hard_total (map rank (cs @ [c]))" using hard_total_snoc by simp
  also have "\<dots> \<le> score (cs @ [c])" by (rule hard_total_le_score)
  finally show ?thesis .
qed

lemma score_Nil: "score [] = 0"
  by (simp add: score_def calculate_while_stop)

lemma calculate_total: "total (calculate h) = score (cards h)"
  by (simp add: calculate_def score_def split: prod.splits)

lemma calculate_cards: "cards (calculate h) = cards h"
  by (simp add: calculate_def split: prod.splits)

lemma calculate_trigger: "trigger (calculate h) = trigger h"
  by (simp add: calculate_def split: prod.splits)

lemma calculate_fixed: "total h = score (cards h) \<Longrightarrow> calculate h = h"
  by (simp add: calculate_def score_def split: prod.splits)

lemma add_card_cards: "cards (add_card h c) = cards h @ [c]"
  by (simp add: add_card_def Let_def bust_def calculate_cards)

lemma add_card_total: "total (add_card h c) = score (cards h @ [c])"
  by (simp add: add_card_def Let_def bust_def calculate_total)

lemma add_card_trigger:
  "trigger (add_card h c) = (trigger h \<and> score (cards h @ [c]) \<le> 21)"
  by (auto simp add: add_card_def Let_def bust_def calculate_total calculate_trigger)

lemma hand_of_snoc: "hand_of (cs @ [c]) = add_card (hand_of cs) c"
  by (simp add: hand_of_def)

lemma cards_hand_of: "cards (hand_of cs) = cs"
  by (induction cs rule: rev_induct)
     (simp_all add: hand_of_snoc add_card_cards, simp add: hand_of_def Hand_init_def)

lemma total_hand_of: "total (hand_of cs) = score cs"
proof (cases cs rule: rev_cases)
  case Nil
  then show ?thesis by (simp add: hand_of_def Hand_init_def score_Nil)
next
  case (snoc ys y)
  then show ?thesis by (simp add: hand_of_snoc add_card_total cards_hand_of)
qed

lemma trigger_hand_of: "trigger (hand_of cs) = (score cs \<le> 21)"
proof (induction cs rule: rev_induct)
  case Nil
  then show ?case by (simp add: hand_of_def Hand_init_def score_Nil)
next
  case (snoc c cs)
  have "trigger (hand_of (cs @ [c])) = (score cs \<le> 21 \<and> score (cs @ [c]) \<le> 21)"
    by (simp add: hand_of_snoc add_card_trigger cards_hand_of snoc.IH)
  also have "\<dots> = (score (cs @ [c]) \<le> 21)"
    using score_bust_snoc [of cs c] by (cases "21 < score cs") (auto simp: not_less)
  finally show ?case .
qed

lemma raw_total_mset: "mset rs = mset rs' \<Longrightarrow> raw_total rs = raw_total rs'"
proof -
  assume "mset rs = mset rs'"
  then have "mset (map rank_value rs) = mset (map rank_value rs')" by simp
  then have "sum_mset (mset (map rank_value rs)) = sum_mset (mset (map rank_value rs'))"
    by simp
  then show ?thesis unfolding raw_total_def by (simp only: sum_mset_sum_list)
qed

lemma ace_count_mset: "mset rs = mset rs' \<Longrightarrow> ace_count rs = ace_count rs'"
proof -
  assume "mset rs = mset rs'"
  then have "mset (filter rank_is_ace rs) = mset (filter rank_is_ace rs')" by simp
  then have "size (mset (filter rank_is_ace rs)) = size (mset (filter rank_is_ace rs'))"
    by (rule arg_cong)
  then show ?thesis unfolding ace_count_def by (simp only: size_mset)
qed

lemma score_mset:
  "mset (map rank cs) = mset (map rank cs') \<Longrightarrow> score cs = score cs'"
  by (simp add: score_eq raw_total_mset [of "map rank cs" "map rank cs'"]
        ace_count_mset [of "map rank cs" "map rank cs'"])

lemma calculate_while_soft_reduce: "calculate_while t (int n) = soft_reduce t n"
proof (induction n arbitrary: t)
  case 0
  then show ?case by (simp add: calculate_while_stop)
next
  case (Suc n)
  show ?case
  proof (cases "21 < t")
    case True
    then have "calculate_while t (int (Suc n)) = calculate_while (t - 10) (int (Suc n) - 1)"
      by (intro calculate_while_step) simp_all
    with True Suc show ?thesis by simp
  next
    case False
    then show ?thesis by (simp add: calculate_while_stop)
  qed
qed

lemma rank_value_ranks:
  "rank_value ''2'' = 2" "rank_value ''3'' = 3" "rank_value ''4'' = 4" "rank_value ''5'' = 5"
  "rank_value ''6'' = 6" "rank_value ''7'' = 7" "rank_value ''8'' = 8" "rank_value ''9'' = 9"
  "rank_value ''10'' = 10" "rank_value ''J'' = 10" "rank_value ''Q'' = 10"
  "rank_value ''K'' = 10" "rank_value ''A'' = 11"
  by (simp_all add: rank_value_def isdigit_def int_str_def)

lemma rank_is_ace_ranks:
  "\<not> rank_is_ace ''2''" "\<not> rank_is_ace ''3''" "\<not> rank_is_ace ''4''"
  "\<not> rank_is_ace ''5''" "\<not> rank_is_ace ''6''" "\<not> rank_is_ace ''7''"
  "\<not> rank_is_ace ''8''" "\<not> rank_is_ace ''9''" "\<not> rank_is_ace ''10''"
  "\<not> rank_is_ace ''J''" "\<not> rank_is_ace ''Q''" "\<not> rank_is_ace ''K''"
  "rank_is_ace ''A''"
  by (simp_all add: rank_is_ace_def isdigit_def)

lemma spec_contribution_ranks:
  "spec_contribution ''2'' = 2" "spec_contribution ''3'' = 3" "spec_contribution ''4'' = 4"
  "spec_contribution ''5'' = 5" "spec_contribution ''6'' = 6" "spec_contribution ''7'' = 7"
  "spec_contribution ''8'' = 8" "spec_contribution ''9'' = 9" "spec_contribution ''10'' = 10"
  "spec_contribution ''J'' = 10" "spec_contribution ''Q'' = 10" "spec_contribution ''K'' = 10"
  "spec_contribution ''A'' = 11"
  by (simp_all add: spec_contribution_def)

lemma all_ranks_value: "\<forall>r\<in>set ranks. rank_value r = spec_contribution r"
  by (simp add: ranks_def rank_value_ranks spec_contribution_ranks)

lemma all_ranks_is_ace: "\<forall>r\<in>set ranks. rank_is_ace r = (r = ''A'')"
  by (simp add: ranks_def rank_is_ace_ranks)

lemma valid_rank_value: "r \<in> set ranks \<Longrightarrow> rank_value r = spec_contribution r"
  using all_ranks_value by blast

lemma valid_rank_is_ace: "r \<in> set ranks \<Longrightarrow> rank_is_ace r = (r = ''A'')"
  using all_ranks_is_ace by blast

lemma valid_raw_total:
  "\<forall>r\<in>set rs. r \<in> set ranks \<Longrightarrow> raw_total rs = sum_list (map spec_contribution rs)"
  unfolding raw_total_def by (induction rs) (simp_all add: valid_rank_value)

lemma valid_ace_count:
  "\<forall>r\<in>set rs. r \<in> set ranks \<Longrightarrow>
   ace_count rs = int (length (filter (\<lambda>r. r = ''A'') rs))"
  unfolding ace_count_def by (induction rs) (simp_all add: valid_rank_is_ace)

lemma score_spec_total:
  "\<forall>c\<in>set cs. rank c \<in> set ranks \<Longrightarrow> score cs = spec_total (map rank cs)"
  by (simp add: score_eq spec_total_def valid_raw_total valid_ace_count
        calculate_while_soft_reduce)


lemma rank_Card: "rank (Card s r) = r"
  by (simp add: Card_def)

lemma score_KQ5: "score [Card (suits ! 0) ''K'', Card (suits ! 1) ''Q'', Card (suits ! 2) ''5''] = 25"
  by (simp add: score_eq rank_Card raw_total_def ace_count_def rank_value_ranks rank_is_ace_ranks
        calculate_while_stop)

text \<open>
  \<^bold>\<open>C1.\<close>  A hand built from a fresh \<^verbatim>\<open>Hand()\<close> by any sequence of \<^verbatim>\<open>add_card\<close> calls, with
  cards of the thirteen ranks of the deck, holds as total the soft-ace-reduced sum of the
  specification: the table of contributions (numerals their face value, J, Q, K ten, each
  ace eleven) summed up, then ten taken off per ace while the sum exceeds 21 and aces
  remain.  Calling \<^verbatim>\<open>calculate\<close> again without adding a card changes nothing, on such a hand
  and on any hand that \<^verbatim>\<open>calculate\<close> has just been applied to.
\<close>

theorem total_is_soft_ace_sum:
  assumes "\<forall>c\<in>set cs. rank c \<in> set ranks"
  shows "total (hand_of cs) = spec_total (map rank cs) \<and>
         calculate (hand_of cs) = hand_of cs \<and>
         calculate (calculate h) = calculate h"
proof -
  have "total (hand_of cs) = spec_total (map rank cs)"
    using assms by (simp add: total_hand_of score_spec_total)
  moreover have "calculate (hand_of cs) = hand_of cs"
    by (rule calculate_fixed) (simp add: total_hand_of cards_hand_of)
  moreover have "calculate (calculate h) = calculate h"
    by (rule calculate_fixed) (simp add: calculate_total calculate_cards)
  ultimately show ?thesis by blast
qed


theorem total_is_soft_ace_sum_witness:
  "rank (Card (suits ! 0) ''A'') \<in> set ranks \<and> rank (Card (suits ! 0) ''K'') \<in> set ranks \<and>
   total (hand_of [Card (suits ! 0) ''A'', Card (suits ! 0) ''K''])
     = spec_total (map rank [Card (suits ! 0) ''A'', Card (suits ! 0) ''K'']) \<and>
   calculate (hand_of [Card (suits ! 0) ''A'', Card (suits ! 0) ''K''])
     = hand_of [Card (suits ! 0) ''A'', Card (suits ! 0) ''K''] \<and>
   calculate (calculate Hand_init) = calculate Hand_init"
proof -
  have h: "\<forall>c\<in>set [Card (suits ! 0) ''A'', Card (suits ! 0) ''K'']. rank c \<in> set ranks"
    by (simp add: rank_Card ranks_def)
  then have "rank (Card (suits ! 0) ''A'') \<in> set ranks \<and> rank (Card (suits ! 0) ''K'') \<in> set ranks"
    by simp
  with total_is_soft_ace_sum [OF h, of Hand_init] show ?thesis by blast
qed


text \<open>
  \<^bold>\<open>C3.\<close>  After any sequence of \<^verbatim>\<open>add_card\<close> calls on a fresh hand the busted flag (the
  negation of \<^verbatim>\<open>trigger\<close>) is set exactly when the total exceeds 21, and once it is set it
  stays set whatever cards are added afterwards.
\<close>

theorem busted_iff_total_over_21: 
  "(\<not> trigger (hand_of cs)) = (21 < total (hand_of cs)) \<and>
   (\<not> trigger (hand_of cs) \<longrightarrow> \<not> trigger (hand_of (cs @ ds)))"
proof -
  have a: "(\<not> trigger (hand_of cs)) = (21 < total (hand_of cs))"
    by (auto simp add: trigger_hand_of total_hand_of)
  have "\<not> trigger (hand_of cs) \<Longrightarrow> \<not> trigger (hand_of (cs @ ds))"
  proof (induction ds rule: rev_induct)
    case Nil
    then show ?case by simp
  next
    case (snoc d ds)
    then have "\<not> trigger (hand_of (cs @ ds))" by simp
    then show ?case
      by (simp add: hand_of_snoc [of "cs @ ds" d, simplified] add_card_trigger)
  qed
  with a show ?thesis by blast
qed


theorem busted_iff_total_over_21_witness:
  "\<not> trigger (hand_of [Card (suits ! 0) ''K'', Card (suits ! 1) ''Q'', Card (suits ! 2) ''5'']) \<and>
   21 < total (hand_of [Card (suits ! 0) ''K'', Card (suits ! 1) ''Q'', Card (suits ! 2) ''5'']) \<and>
   \<not> trigger (hand_of ([Card (suits ! 0) ''K'', Card (suits ! 1) ''Q'', Card (suits ! 2) ''5'']
                       @ [Card (suits ! 3) ''2'']))"
proof -
  have h: "\<not> trigger (hand_of [Card (suits ! 0) ''K'', Card (suits ! 1) ''Q'', Card (suits ! 2) ''5''])"
    by (simp only: trigger_hand_of score_KQ5)
  from busted_iff_total_over_21 [of "[Card (suits ! 0) ''K'', Card (suits ! 1) ''Q'', Card (suits ! 2) ''5'']"
              "[Card (suits ! 3) ''2'']"] h
  show ?thesis by blast
qed


text \<open>
  \<^bold>\<open>C9.\<close>  Two hands whose cards have the same multiset of ranks have the same total and
  the same busted status: the order in which the cards were added does not matter.
\<close>

theorem score_permutation_invariant:
  "mset (map rank cs) = mset (map rank cs') \<Longrightarrow>
   total (hand_of cs) = total (hand_of cs') \<and> trigger (hand_of cs) = trigger (hand_of cs')"
  by (simp add: total_hand_of trigger_hand_of score_mset [of cs cs'])


theorem score_permutation_invariant_witness:
  "mset (map rank [Card (suits ! 0) ''A'', Card (suits ! 1) ''K''])
     = mset (map rank [Card (suits ! 2) ''K'', Card (suits ! 3) ''A'']) \<and>
   total (hand_of [Card (suits ! 0) ''A'', Card (suits ! 1) ''K''])
     = total (hand_of [Card (suits ! 2) ''K'', Card (suits ! 3) ''A'']) \<and>
   trigger (hand_of [Card (suits ! 0) ''A'', Card (suits ! 1) ''K''])
     = trigger (hand_of [Card (suits ! 2) ''K'', Card (suits ! 3) ''A''])"
proof -
  have h: "mset (map rank [Card (suits ! 0) ''A'', Card (suits ! 1) ''K''])
     = mset (map rank [Card (suits ! 2) ''K'', Card (suits ! 3) ''A''])"
    by (simp add: rank_Card add_mset_commute)
  from score_permutation_invariant [OF h] h show ?thesis by blast
qed


subsection \<open>Optimality of the ace reduction\<close>

lemma set_assignment_totals:
  "set (assignment_totals rs) = {hard_total rs + 10 * k | k. 0 \<le> k \<and> k \<le> ace_count rs}"
proof (induction rs)
  case Nil
  then show ?case by (auto simp: hard_total_def raw_total_def ace_count_def)
next
  case (Cons r rs)
  show ?case
  proof (cases "rank_is_ace r")
    case True
    have h: "hard_total (r # rs) = 1 + hard_total rs"
      using True by (simp add: hard_total_def raw_total_def ace_count_def rank_value_ace)
    have a: "ace_count (r # rs) = 1 + ace_count rs"
      using True by (simp add: ace_count_def)
    have "set (assignment_totals (r # rs)) =
          (\<lambda>t. 11 + t) ` set (assignment_totals rs) \<union> (\<lambda>t. 1 + t) ` set (assignment_totals rs)"
      using True by simp
    also have "\<dots> = {hard_total (r # rs) + 10 * k | k. 0 \<le> k \<and> k \<le> ace_count (r # rs)}"
      (is "?L = ?R")
    proof (intro set_eqI iffI)
      fix x assume "x \<in> ?L"
      then consider k where "0 \<le> k" "k \<le> ace_count rs" "x = 11 + (hard_total rs + 10 * k)"
        | k where "0 \<le> k" "k \<le> ace_count rs" "x = 1 + (hard_total rs + 10 * k)"
        unfolding Cons.IH by auto
      then show "x \<in> ?R"
      proof cases
        case 1
        then have "x = hard_total (r # rs) + 10 * (k + 1) \<and> 0 \<le> k + 1 \<and> k + 1 \<le> ace_count (r # rs)"
          by (simp add: h a)
        then show ?thesis by blast
      next
        case 2
        then have "x = hard_total (r # rs) + 10 * k \<and> 0 \<le> k \<and> k \<le> ace_count (r # rs)"
          by (simp add: h a)
        then show ?thesis by blast
      qed
    next
      fix x assume "x \<in> ?R"
      then obtain k where k: "0 \<le> k" "k \<le> 1 + ace_count rs" "x = 1 + hard_total rs + 10 * k"
        by (auto simp: h a)
      show "x \<in> ?L"
      proof (cases "k = 0")
        case True
        have "(0::int) \<le> 0 \<and> 0 \<le> ace_count rs" by (simp add: ace_count_nonneg)
        then have "hard_total rs + 10 * 0 \<in> set (assignment_totals rs)"
          unfolding Cons.IH by blast
        moreover from k True have "x = 1 + (hard_total rs + 10 * 0)" by simp
        ultimately show ?thesis by blast
      next
        case False
        with k have "0 \<le> k - 1 \<and> k - 1 \<le> ace_count rs" by simp
        then have "hard_total rs + 10 * (k - 1) \<in> set (assignment_totals rs)"
          unfolding Cons.IH by blast
        moreover from k have "x = 11 + (hard_total rs + 10 * (k - 1))" by simp
        ultimately show ?thesis by blast
      qed
    qed
    finally show ?thesis .
  next
    case False
    have h: "hard_total (r # rs) = rank_value r + hard_total rs"
      using False by (simp add: hard_total_def raw_total_def ace_count_def)
    have a: "ace_count (r # rs) = ace_count rs"
      using False by (simp add: ace_count_def)
    have "set (assignment_totals (r # rs)) = (\<lambda>t. rank_value r + t) ` set (assignment_totals rs)"
      using False by simp
    also have "\<dots> = {hard_total (r # rs) + 10 * k | k. 0 \<le> k \<and> k \<le> ace_count (r # rs)}"
      (is "?L = ?R")
    proof (intro set_eqI iffI)
      fix x assume "x \<in> ?L"
      then obtain k where "0 \<le> k" "k \<le> ace_count rs" "x = rank_value r + (hard_total rs + 10 * k)"
        unfolding Cons.IH by auto
      then have "x = hard_total (r # rs) + 10 * k \<and> 0 \<le> k \<and> k \<le> ace_count (r # rs)"
        by (simp add: h a)
      then show "x \<in> ?R" by blast
    next
      fix x assume "x \<in> ?R"
      then obtain k where k: "0 \<le> k" "k \<le> ace_count rs" "x = rank_value r + hard_total rs + 10 * k"
        by (auto simp: h a)
      then have "hard_total rs + 10 * k \<in> set (assignment_totals rs)"
        unfolding Cons.IH by blast
      moreover from k have "x = rank_value r + (hard_total rs + 10 * k)" by simp
      ultimately show "x \<in> ?L" by blast
    qed
    finally show ?thesis .
  qed
qed

lemma totals_AA9:
  "assignment_totals (map rank [Card (suits ! 0) ''A'', Card (suits ! 1) ''A'', Card (suits ! 2) ''9''])
     = [31, 21, 21, 11]"
  by (simp add: rank_Card rank_is_ace_ranks rank_value_ranks)

lemma totals_KQ5:
  "assignment_totals (map rank [Card (suits ! 0) ''K'', Card (suits ! 1) ''Q'', Card (suits ! 2) ''5''])
     = [25]"
  by (simp add: rank_Card rank_is_ace_ranks rank_value_ranks)


text \<open>
  \<^bold>\<open>C7.\<close>  The total of a hand is the total of one of the assignments of 11 or 1 to its
  aces.  If some assignment does not exceed 21, the total does not exceed 21 either, the
  hand is not busted, and no assignment within 21 is larger.  If every assignment exceeds
  21, the total is the least of them and the hand is busted.
\<close>

theorem ace_reduction_optimal:
  "total (hand_of cs) \<in> set (assignment_totals (map rank cs)) \<and>
   ((\<exists>x\<in>set (assignment_totals (map rank cs)). x \<le> 21) \<longrightarrow>
      total (hand_of cs) \<le> 21 \<and> trigger (hand_of cs) \<and>
      (\<forall>x\<in>set (assignment_totals (map rank cs)). x \<le> 21 \<longrightarrow> x \<le> total (hand_of cs))) \<and>
   (\<not> (\<exists>x\<in>set (assignment_totals (map rank cs)). x \<le> 21) \<longrightarrow>
      (\<forall>x\<in>set (assignment_totals (map rank cs)). total (hand_of cs) \<le> x) \<and>
      \<not> trigger (hand_of cs))"
proof -
  define rs where "rs = map rank cs"
  define a where "a = ace_count rs"
  define hd where "hd = hard_total rs"
  define t where "t = score cs"
  have a0: "0 \<le> a" by (simp add: a_def ace_count_nonneg)
  have raw: "raw_total rs = hd + 10 * a" by (simp add: hd_def a_def hard_total_def)
  have T: "set (assignment_totals rs) = {hd + 10 * k | k. 0 \<le> k \<and> k \<le> a}"
    by (simp add: set_assignment_totals hd_def a_def)
  have t_eq: "t = calculate_while (hd + 10 * a) a"
    by (simp add: t_def score_eq rs_def [symmetric] raw a_def [symmetric])
  obtain k where k: "0 \<le> k" "k \<le> a" "t = hd + 10 * a - 10 * k"
    using calculate_while_steps [OF a0, of "hd + 10 * a"] t_eq by auto
  have mem: "t \<in> set (assignment_totals rs)"
  proof -
    have "t = hd + 10 * (a - k) \<and> 0 \<le> a - k \<and> a - k \<le> a" using k by simp
    then show ?thesis unfolding T by blast
  qed
  have bust: "21 < t \<Longrightarrow> t = hd"
    using calculate_while_bust [OF a0, of "hd + 10 * a"] t_eq by simp
  have tight: "t \<le> 21 \<Longrightarrow> t = hd + 10 * a \<or> 11 < t"
    using calculate_while_tight [of "hd + 10 * a" a] t_eq by simp
  have low: "\<forall>x\<in>set (assignment_totals rs). hd \<le> x" unfolding T by auto
  have hd_le: "hd \<le> t" using k by simp
  have c1: "(\<exists>x\<in>set (assignment_totals rs). x \<le> 21) \<longrightarrow>
      t \<le> 21 \<and> (\<forall>x\<in>set (assignment_totals rs). x \<le> 21 \<longrightarrow> x \<le> t)"
  proof (intro impI)
    assume "\<exists>x\<in>set (assignment_totals rs). x \<le> 21"
    with low have "hd \<le> 21" by fastforce
    with bust have t21: "t \<le> 21" by (cases "21 < t") auto
    have "\<forall>x\<in>set (assignment_totals rs). x \<le> 21 \<longrightarrow> x \<le> t"
    proof (intro ballI impI)
      fix x assume "x \<in> set (assignment_totals rs)" "x \<le> 21"
      then obtain j where j: "0 \<le> j" "j \<le> a" "x = hd + 10 * j" unfolding T by auto
      from tight [OF t21] show "x \<le> t"
      proof
        assume "t = hd + 10 * a"
        with j show ?thesis by simp
      next
        assume "11 < t"
        with \<open>x \<le> 21\<close> j k have "10 * j < 10 * (a - k + 1)" by simp
        then have "j < a - k + 1" by simp
        with j k show ?thesis by simp
      qed
    qed
    with t21 show "t \<le> 21 \<and> (\<forall>x\<in>set (assignment_totals rs). x \<le> 21 \<longrightarrow> x \<le> t)" by blast
  qed
  have c2: "\<not> (\<exists>x\<in>set (assignment_totals rs). x \<le> 21) \<longrightarrow>
      (\<forall>x\<in>set (assignment_totals rs). t \<le> x) \<and> 21 < t"
  proof (intro impI)
    assume n: "\<not> (\<exists>x\<in>set (assignment_totals rs). x \<le> 21)"
    with mem have "21 < t" by force
    with bust low show "(\<forall>x\<in>set (assignment_totals rs). t \<le> x) \<and> 21 < t" by simp
  qed
  have tot: "total (hand_of cs) = t" by (simp add: t_def total_hand_of)
  have trg: "trigger (hand_of cs) = (t \<le> 21)" by (simp add: t_def trigger_hand_of)
  from mem c1 c2 show ?thesis
    unfolding tot trg rs_def [symmetric] by (simp add: not_le)
qed

theorem ace_reduction_optimal_witness:
  "21 \<in> set (assignment_totals (map rank [Card (suits ! 0) ''A'', Card (suits ! 1) ''A'', Card (suits ! 2) ''9''])) \<and>
   21 \<le> total (hand_of [Card (suits ! 0) ''A'', Card (suits ! 1) ''A'', Card (suits ! 2) ''9'']) \<and>
   total (hand_of [Card (suits ! 0) ''A'', Card (suits ! 1) ''A'', Card (suits ! 2) ''9'']) \<le> 21 \<and>
   trigger (hand_of [Card (suits ! 0) ''A'', Card (suits ! 1) ''A'', Card (suits ! 2) ''9'']) \<and>
   total (hand_of [Card (suits ! 0) ''K'', Card (suits ! 1) ''Q'', Card (suits ! 2) ''5'']) \<le> 25 \<and>
   \<not> trigger (hand_of [Card (suits ! 0) ''K'', Card (suits ! 1) ''Q'', Card (suits ! 2) ''5''])"
proof -
  let ?soft = "[Card (suits ! 0) ''A'', Card (suits ! 1) ''A'', Card (suits ! 2) ''9'']"
  let ?bust = "[Card (suits ! 0) ''K'', Card (suits ! 1) ''Q'', Card (suits ! 2) ''5'']"
  have m: "21 \<in> set (assignment_totals (map rank ?soft))"
    by (simp only: totals_AA9) simp
  then have ex: "\<exists>x\<in>set (assignment_totals (map rank ?soft)). x \<le> 21" by (rule bexI [rotated]) simp
  have nex: "\<not> (\<exists>x\<in>set (assignment_totals (map rank ?bust)). x \<le> 21)"
    by (simp only: totals_KQ5) simp
  have m25: "25 \<in> set (assignment_totals (map rank ?bust))"
    by (simp only: totals_KQ5) simp
  from ace_reduction_optimal [of ?soft] ex m ace_reduction_optimal [of ?bust] nex m25 show ?thesis by blast
qed


section \<open>Properties of the deck\<close>

lemma length_swap: "length (swap i j xs) = length xs"
  by (simp add: swap_def)

lemma mset_swap_list: "i < length xs \<Longrightarrow> j < length xs \<Longrightarrow> mset (swap i j xs) = mset xs"
  unfolding swap_def by (rule mset_swap)

lemma mset_shuffle_loop: "n < length xs \<Longrightarrow> mset (shuffle_loop rnd n xs) = mset xs"
proof (induction n arbitrary: xs)
  case 0
  then show ?case by simp
next
  case (Suc i)
  have j: "rnd (Suc i) mod (Suc i + 1) < length xs"
  proof -
    have "rnd (Suc i) mod (Suc i + 1) < Suc i + 1" by (rule mod_less_divisor) simp
    with Suc.prems show ?thesis by linarith
  qed
  have "i < length (swap (Suc i) (rnd (Suc i) mod (Suc i + 1)) xs)"
    using Suc.prems by (simp add: length_swap)
  then have "mset (shuffle_loop rnd (Suc i) xs) = mset (swap (Suc i) (rnd (Suc i) mod (Suc i + 1)) xs)"
    using Suc.IH by simp
  also have "\<dots> = mset xs" using Suc.prems j by (rule mset_swap_list)
  finally show ?case .
qed

lemma mset_shuffle: "mset (shuffle rnd xs) = mset xs"
proof (cases xs)
  case Nil
  then show ?thesis by (simp add: shuffle_def)
next
  case (Cons x ys)
  then have "length xs - 1 < length xs" by simp
  then show ?thesis unfolding shuffle_def by (rule mset_shuffle_loop)
qed

lemma index_loop_map: "map (\<lambda>i. f (xs ! i)) [0..<length xs] = map f xs"
  by (rule nth_equalityI) simp_all

lemma ordered_deck_eq: "ordered_deck = concat (map (\<lambda>s. map (Card s) ranks) suits)"
proof -
  have inner: "\<And>s. map (\<lambda>j. Card s (ranks ! j)) [0..<length ranks] = map (Card s) ranks"
    by (rule index_loop_map)
  have outer: "map (\<lambda>i. map (Card (suits ! i)) ranks) [0..<length suits]
               = map (\<lambda>s. map (Card s) ranks) suits"
    by (rule index_loop_map [of "\<lambda>s. map (Card s) ranks" suits])
  show ?thesis unfolding ordered_deck_def by (simp only: inner outer)
qed

lemma length_ordered_deck: "length ordered_deck = 52"
  by (simp add: ordered_deck_eq suits_def ranks_def)

lemma set_ordered_deck:
  "set ordered_deck = {Card s r | s r. s \<in> set suits \<and> r \<in> set ranks}"
  unfolding ordered_deck_eq by auto

lemma distinct_suits: "distinct suits"
  by (simp add: suits_def)

lemma distinct_ranks: "distinct ranks"
  by (simp add: ranks_def)

lemma pairs_ordered_deck:
  "map (\<lambda>c. (suit c, rank c)) ordered_deck = concat (map (\<lambda>s. map (Pair s) ranks) suits)"
  unfolding ordered_deck_eq by (simp add: map_concat comp_def Card_def)

lemma distinct_product: "distinct xs \<Longrightarrow> distinct ys \<Longrightarrow> distinct (concat (map (\<lambda>x. map (Pair x) ys) xs))"
proof (induction xs)
  case Nil
  then show ?case by simp
next
  case (Cons x xs)
  have "distinct (map (Pair x) ys)" using Cons.prems(2) by (simp add: distinct_map inj_on_def)
  moreover have "distinct (concat (map (\<lambda>x. map (Pair x) ys) xs))" using Cons by simp
  moreover have "set (map (Pair x) ys) \<inter> set (concat (map (\<lambda>x. map (Pair x) ys) xs)) = {}"
    using Cons.prems(1) by auto
  ultimately show ?case by simp
qed

lemma distinct_pairs_ordered_deck: "distinct (map (\<lambda>c. (suit c, rank c)) ordered_deck)"
  unfolding pairs_ordered_deck by (rule distinct_product [OF distinct_suits distinct_ranks])

lemma mset_Deck_init: "mset (Deck_init rnd) = mset ordered_deck"
  by (simp add: Deck_init_def mset_shuffle)

lemma length_Deck_init: "length (Deck_init rnd) = 52"
  using mset_eq_length [OF mset_Deck_init [of rnd]] by (simp add: length_ordered_deck)

lemma set_Deck_init:
  "set (Deck_init rnd) = {Card s r | s r. s \<in> set suits \<and> r \<in> set ranks}"
  using mset_eq_setD [OF mset_Deck_init [of rnd]] by (simp add: set_ordered_deck)

lemma distinct_pairs_Deck_init: "distinct (map (\<lambda>c. (suit c, rank c)) (Deck_init rnd))"
proof -
  have "mset (map (\<lambda>c. (suit c, rank c)) (Deck_init rnd))
        = mset (map (\<lambda>c. (suit c, rank c)) ordered_deck)"
    by (simp add: mset_Deck_init)
  from mset_eq_imp_distinct_iff [OF this] show ?thesis
    by (simp add: distinct_pairs_ordered_deck)
qed

lemma distinct_Deck_init: "distinct (Deck_init rnd)"
  using distinct_pairs_Deck_init [of rnd] by (simp add: distinct_map)

lemma deal_snoc: "deal (xs @ [x]) = Inr (x, xs)"
  by (simp add: deal_def)

lemma deal_Nil: "deal [] = Inl IndexError"
  by (simp add: deal_def)

lemma deal_many_ok:
  "n \<le> length d \<Longrightarrow>
   deal_many n d = Inr (rev (drop (length d - n) d), take (length d - n) d)"
proof (induction n arbitrary: d)
  case 0
  then show ?case by simp
next
  case (Suc n)
  then obtain xs x where d: "d = xs @ [x]" by (cases d rule: rev_cases) auto
  with Suc.prems have "n \<le> length xs" by simp
  then have "deal_many n xs = Inr (rev (drop (length xs - n) xs), take (length xs - n) xs)"
    by (rule Suc.IH)
  then show ?case by (simp add: d deal_snoc)
qed

lemma deal_many_over: "deal_many (Suc (length d)) d = Inl IndexError"
proof (induction d rule: rev_induct)
  case Nil
  then show ?case by (simp add: deal_Nil)
next
  case (snoc x xs)
  have "deal_many (Suc (Suc (length xs))) (xs @ [x]) =
        (case deal_many (Suc (length xs)) xs of Inl e \<Rightarrow> Inl e | Inr (cs, d'') \<Rightarrow> Inr (x # cs, d''))"
    by (simp only: deal_many.simps deal_snoc sum.case prod.case)
  with snoc show ?case by simp
qed

lemma deal_many_53: "deal_many 53 (Deck_init rnd) = Inl IndexError"
  using deal_many_over [of "Deck_init rnd"] by (simp add: length_Deck_init)

lemma deal_many_Deck_init:
  assumes "n \<le> 52"
  shows "\<exists>cs d'. deal_many n (Deck_init rnd) = Inr (cs, d') \<and> length cs = n \<and> distinct cs \<and>
                 length d' = 52 - n \<and> Deck_init rnd = d' @ rev cs"
proof -
  let ?d = "Deck_init rnd"
  let ?cs = "rev (drop (52 - n) ?d)"
  let ?d' = "take (52 - n) ?d"
  have "deal_many n ?d = Inr (?cs, ?d')"
    using deal_many_ok [of n ?d] assms by (simp add: length_Deck_init)
  moreover have "length ?cs = n" using assms by (simp add: length_Deck_init)
  moreover have "distinct ?cs" by (simp add: distinct_Deck_init)
  moreover have "length ?d' = 52 - n" by (simp add: length_Deck_init)
  moreover have "?d = ?d' @ rev ?cs" by simp
  ultimately show ?thesis by blast
qed


text \<open>
  \<^bold>\<open>C4\<close> (as the code has it).  Whatever the random source, a fresh deck holds 52 cards,
  no two with the same suit and rank, and they are the cards of all suit-rank combinations.
  A draw from a non-empty deck returns its last card and leaves a shorter deck.  Up to 52
  successive draws succeed, return pairwise different cards and leave the rest of the deck.
  The 53rd draw fails with \<^verbatim>\<open>IndexError\<close>, the exception of \<^verbatim>\<open>list.pop\<close> on an empty list.
\<close>

theorem fresh_deck_draws:
  "length (Deck_init rnd) = 52 \<and>
   distinct (map (\<lambda>c. (suit c, rank c)) (Deck_init rnd)) \<and>
   set (Deck_init rnd) = {Card s r | s r. s \<in> set suits \<and> r \<in> set ranks} \<and>
   (\<forall>d. d \<noteq> [] \<longrightarrow> deal d = Inr (last d, butlast d) \<and> length (butlast d) < length d) \<and>
   (\<forall>n\<le>52. \<exists>cs d'. deal_many n (Deck_init rnd) = Inr (cs, d') \<and> length cs = n \<and>
       distinct cs \<and> length d' = 52 - n \<and> Deck_init rnd = d' @ rev cs) \<and>
   deal_many 53 (Deck_init rnd) = Inl IndexError"
proof -
  have "\<forall>d. d \<noteq> [] \<longrightarrow> deal d = Inr (last d, butlast d) \<and> length (butlast d) < length d"
    by (simp add: deal_def)
  moreover have "\<forall>n\<le>52. \<exists>cs d'. deal_many n (Deck_init rnd) = Inr (cs, d') \<and> length cs = n \<and>
       distinct cs \<and> length d' = 52 - n \<and> Deck_init rnd = d' @ rev cs"
    using deal_many_Deck_init by blast
  ultimately show ?thesis
    using length_Deck_init [of rnd] distinct_pairs_Deck_init [of rnd] set_Deck_init [of rnd]
      deal_many_53 [of rnd]
    by blast
qed

theorem fresh_deck_draws_witness:
  "length (Deck_init id) = 52 \<and>
   deal [Card (suits ! 0) ''A''] = Inr (Card (suits ! 0) ''A'', []) \<and>
   (\<exists>cs d'. deal_many 2 (Deck_init id) = Inr (cs, d') \<and> length cs = 2 \<and>
       distinct cs \<and> length d' = 50 \<and> Deck_init id = d' @ rev cs) \<and>
   deal_many 53 (Deck_init id) = Inl IndexError"
proof -
  have a: "[Card (suits ! 0) ''A''] \<noteq> []" by simp
  have b: "(2::nat) \<le> 52" by simp
  from fresh_deck_draws [of id]
  have d: "\<forall>d. d \<noteq> [] \<longrightarrow> deal d = Inr (last d, butlast d) \<and> length (butlast d) < length d"
    and n: "\<forall>n\<le>52. \<exists>cs d'. deal_many n (Deck_init id) = Inr (cs, d') \<and> length cs = n \<and>
       distinct cs \<and> length d' = 52 - n \<and> Deck_init id = d' @ rev cs"
    and r: "length (Deck_init id) = 52" "deal_many 53 (Deck_init id) = Inl IndexError"
    by blast+
  from d a have "deal [Card (suits ! 0) ''A''] = Inr (last [Card (suits ! 0) ''A''], butlast [Card (suits ! 0) ''A''])"
    by blast
  then have d1: "deal [Card (suits ! 0) ''A''] = Inr (Card (suits ! 0) ''A'', [])" by simp
  from n b have "\<exists>cs d'. deal_many 2 (Deck_init id) = Inr (cs, d') \<and> length cs = 2 \<and>
       distinct cs \<and> length d' = 52 - 2 \<and> Deck_init id = d' @ rev cs" by blast
  then have n1: "\<exists>cs d'. deal_many 2 (Deck_init id) = Inr (cs, d') \<and> length cs = 2 \<and>
       distinct cs \<and> length d' = 50 \<and> Deck_init id = d' @ rev cs" by simp
  from r d1 n1 show ?thesis by blast
qed

text \<open>
  The 53rd draw does not fail with the \<^verbatim>\<open>EmptyShoeError\<close> of the specification: the source
  defines no such exception, and \<^verbatim>\<open>deal\<close> has no guard of its own.
\<close>

theorem empty_shoe_error_counterexample:
  "deal_many 53 (Deck_init id) = Inl IndexError \<and>
   deal_many 53 (Deck_init id) \<noteq> Inl EmptyShoeError"
  by (simp add: deal_many_53)

section \<open>Properties of the dealer's turn\<close>

lemma dealer_turn_stop:
  "\<not> (total h < 17 \<and> trigger h) \<Longrightarrow> dealer_turn h d = Inr (total h, h, d)"
  by (subst dealer_turn.simps) auto

lemma dealer_turn_empty:
  "total h < 17 \<Longrightarrow> trigger h \<Longrightarrow> dealer_turn h [] = Inl IndexError"
  by (subst dealer_turn.simps) (simp add: deal_Nil)

lemma dealer_turn_draw:
  "total h < 17 \<Longrightarrow> trigger h \<Longrightarrow>
   dealer_turn h (d @ [c]) =
     (if \<not> trigger (add_card h c) then Inr (total (add_card h c), add_card h c, d)
      else dealer_turn (add_card h c) d)"
  by (subst dealer_turn.simps) (simp add: deal_snoc Let_def)

lemma strict_prefix_single: "strict_prefix p [c] \<longleftrightarrow> p = []"
  by (cases p) simp_all

lemma dealer_turn_Inr:
  "dealer_turn h d = Inr (t, h', d') \<Longrightarrow>
   \<exists>drawn. d = d' @ rev drawn \<and> h' = foldl add_card h drawn \<and> t = total h' \<and>
     (\<forall>p. strict_prefix p drawn \<longrightarrow>
        total (foldl add_card h p) < 17 \<and> trigger (foldl add_card h p)) \<and>
     (17 \<le> total h' \<or> \<not> trigger h')"
proof (induction d arbitrary: h rule: rev_induct)
  case Nil
  show ?case
  proof (cases "total h < 17 \<and> trigger h")
    case True
    with Nil show ?thesis by (simp add: dealer_turn_empty)
  next
    case False
    with Nil have "t = total h" "h' = h" "d' = []" by (auto simp add: dealer_turn_stop)
    with False show ?thesis by (intro exI [of _ "[]"]) auto
  qed
next
  case (snoc c d)
  show ?case
  proof (cases "total h < 17 \<and> trigger h")
    case False
    with snoc.prems have "t = total h" "h' = h" "d' = d @ [c]"
      by (auto simp add: dealer_turn_stop)
    with False show ?thesis by (intro exI [of _ "[]"]) auto
  next
    case True
    note loop = this
    let ?h1 = "add_card h c"
    show ?thesis
    proof (cases "trigger ?h1")
      case False
      with snoc.prems loop have "t = total ?h1" "h' = ?h1" "d' = d"
        by (auto simp add: dealer_turn_draw)
      with False loop show ?thesis by (intro exI [of _ "[c]"]) (simp add: strict_prefix_single)
    next
      case True
      with snoc.prems loop have "dealer_turn ?h1 d = Inr (t, h', d')"
        by (simp add: dealer_turn_draw)
      from snoc.IH [OF this] obtain drawn where dr:
        "d = d' @ rev drawn" "h' = foldl add_card ?h1 drawn" "t = total h'"
        "\<forall>p. strict_prefix p drawn \<longrightarrow>
           total (foldl add_card ?h1 p) < 17 \<and> trigger (foldl add_card ?h1 p)"
        "17 \<le> total h' \<or> \<not> trigger h'"
        by blast
      have pre: "\<forall>p. strict_prefix p (c # drawn) \<longrightarrow>
           total (foldl add_card h p) < 17 \<and> trigger (foldl add_card h p)"
      proof (intro allI impI)
        fix p assume sp: "strict_prefix p (c # drawn)"
        show "total (foldl add_card h p) < 17 \<and> trigger (foldl add_card h p)"
        proof (cases p)
          case Nil
          with loop show ?thesis by simp
        next
          case (Cons a q)
          with sp have "a = c" "strict_prefix q drawn" by simp_all
          with dr(4) Cons show ?thesis by simp
        qed
      qed
      from dr pre show ?thesis by (intro exI [of _ "c # drawn"]) simp
    qed
  qed
qed

lemma dealer_turn_Inl:
  "dealer_turn h d = Inl e \<Longrightarrow>
   e = IndexError \<and> total (foldl add_card h (rev d)) < 17 \<and> trigger (foldl add_card h (rev d))"
proof (induction d arbitrary: h rule: rev_induct)
  case Nil
  show ?case
  proof (cases "total h < 17 \<and> trigger h")
    case True
    with Nil show ?thesis by (simp add: dealer_turn_empty)
  next
    case False
    with Nil show ?thesis by (simp add: dealer_turn_stop)
  qed
next
  case (snoc c d)
  show ?case
  proof (cases "total h < 17 \<and> trigger h")
    case False
    with snoc.prems show ?thesis by (simp add: dealer_turn_stop)
  next
    case True
    with snoc.prems have "trigger (add_card h c)" "dealer_turn (add_card h c) d = Inl e"
      by (auto simp add: dealer_turn_draw split: if_splits)
    from snoc.IH [OF this(2)] show ?thesis by simp
  qed
qed

lemma hard_total_nonneg: "0 \<le> hard_total rs"
proof (induction rs rule: rev_induct)
  case Nil
  then show ?case by (simp add: hard_total_def raw_total_def ace_count_def)
next
  case (snoc r rs)
  with hard_total_snoc [of rs r] show ?case by simp
qed

lemma all_ranks_hard_value:
  "\<forall>r\<in>set ranks. 1 \<le> rank_value r - (if rank_is_ace r then 10 else 0)"
  by (simp add: ranks_def rank_value_ranks rank_is_ace_ranks)

lemma hard_total_snoc_valid:
  assumes "r \<in> set ranks"
  shows "hard_total rs + 1 \<le> hard_total (rs @ [r])"
proof -
  from assms all_ranks_hard_value have "1 \<le> rank_value r - (if rank_is_ace r then 10 else 0)"
    by blast
  then show ?thesis
    by (cases "rank_is_ace r") (simp_all add: hard_total_def raw_total_def ace_count_def)
qed

lemma dealer_turn_returns_consistent:
  "total h = score (cards h) \<Longrightarrow> \<forall>c\<in>set d. rank c \<in> set ranks \<Longrightarrow>
   17 \<le> int (length d) + hard_total (map rank (cards h)) \<Longrightarrow>
   \<exists>r. dealer_turn h d = Inr r"
proof (induction d arbitrary: h rule: rev_induct)
  case Nil
  then have "17 \<le> total h" using hard_total_le_score [of "cards h"] by simp
  then show ?case by (simp add: dealer_turn_stop)
next
  case (snoc c d)
  show ?case
  proof (cases "total h < 17 \<and> trigger h")
    case False
    then show ?thesis by (simp add: dealer_turn_stop)
  next
    case True
    let ?h1 = "add_card h c"
    show ?thesis
    proof (cases "trigger ?h1")
      case False
      with True show ?thesis by (simp add: dealer_turn_draw)
    next
      case t1: True
      have c: "rank c \<in> set ranks" using snoc.prems(2) by simp
      have "total ?h1 = score (cards ?h1)" by (simp add: add_card_total add_card_cards)
      moreover have "\<forall>c\<in>set d. rank c \<in> set ranks" using snoc.prems(2) by simp
      moreover have "17 \<le> int (length d) + hard_total (map rank (cards ?h1))"
        using snoc.prems(3) hard_total_snoc_valid [OF c, of "map rank (cards h)"]
        by (simp add: add_card_cards)
      ultimately have "\<exists>r. dealer_turn ?h1 d = Inr r" by (rule snoc.IH)
      with True t1 show ?thesis by (simp add: dealer_turn_draw)
    qed
  qed
qed

lemma dealer_turn_returns:
  assumes "17 \<le> length d" and "\<forall>c\<in>set d. rank c \<in> set ranks"
  shows "\<exists>r. dealer_turn h d = Inr r"
proof (cases "total h < 17 \<and> trigger h")
  case False
  then show ?thesis by (simp add: dealer_turn_stop)
next
  case True
  from assms(1) obtain xs x where d: "d = xs @ [x]" by (cases d rule: rev_cases) auto
  let ?h1 = "add_card h x"
  show ?thesis
  proof (cases "trigger ?h1")
    case False
    with True show ?thesis by (simp add: d dealer_turn_draw)
  next
    case t1: True
    have x: "rank x \<in> set ranks" using assms(2) d by simp
    have "total ?h1 = score (cards ?h1)" by (simp add: add_card_total add_card_cards)
    moreover have "\<forall>c\<in>set xs. rank c \<in> set ranks" using assms(2) d by simp
    moreover have "17 \<le> int (length xs) + hard_total (map rank (cards ?h1))"
      using assms(1) d hard_total_snoc_valid [OF x, of "map rank (cards h)"]
        hard_total_nonneg [of "map rank (cards h)"]
      by (simp add: add_card_cards)
    ultimately have "\<exists>r. dealer_turn ?h1 xs = Inr r" by (rule dealer_turn_returns_consistent)
    with True t1 show ?thesis by (simp add: d dealer_turn_draw)
  qed
qed

lemma valid_Deck_init: "\<forall>c\<in>set (Deck_init rnd). rank c \<in> set ranks"
  by (auto simp add: set_Deck_init rank_Card)

text \<open>
  \<^bold>\<open>C5.\<close>  With a deck of at least 17 cards of the thirteen ranks (more than the dealer can
  ever need) the dealer's turn returns.  The cards it drew are the last cards of the deck in
  reverse order; before each draw the dealer's total was below 17 and the dealer was not
  busted; at the end the total is at least 17 or the dealer is busted, so no further card is
  drawn; and the value returned is the total of the final hand.
\<close>

theorem dealer_turn_hits_below_17:
  assumes "17 \<le> length d" and "\<forall>c\<in>set d. rank c \<in> set ranks"
  shows "\<exists>h' d' drawn. dealer_turn h d = Inr (total h', h', d') \<and>
           d = d' @ rev drawn \<and> h' = foldl add_card h drawn \<and>
           (\<forall>p. strict_prefix p drawn \<longrightarrow>
              total (foldl add_card h p) < 17 \<and> trigger (foldl add_card h p)) \<and>
           (17 \<le> total h' \<or> \<not> trigger h')"
proof -
  from dealer_turn_returns [OF assms] obtain t h' d' where r: "dealer_turn h d = Inr (t, h', d')"
    by (metis prod_cases3)
  from dealer_turn_Inr [OF r] r show ?thesis by blast
qed


theorem dealer_turn_hits_below_17_witness:
  "17 \<le> length (Deck_init id) \<and>
   (\<exists>h' d' drawn. dealer_turn Hand_init (Deck_init id) = Inr (total h', h', d') \<and>
      Deck_init id = d' @ rev drawn \<and> h' = foldl add_card Hand_init drawn \<and>
      (17 \<le> total h' \<or> \<not> trigger h'))"
proof -
  have l: "17 \<le> length (Deck_init id)" by (simp add: length_Deck_init)
  from dealer_turn_hits_below_17 [OF l valid_Deck_init, of Hand_init] l
  show ?thesis by blast
qed

text \<open>
  \<^bold>\<open>C8.\<close>  The dealer's loop always ends, for every hand and every deck: either it returns
  after drawing some of the last cards of the deck, at most as many as the deck holds, or it
  has drawn the whole deck while staying below 17 and the next \<^verbatim>\<open>deal\<close> raises
  \<^verbatim>\<open>IndexError\<close>.  The other loop with a condition, the ace reduction of \<^verbatim>\<open>calculate\<close>,
  ends after at most as many rounds as there are aces.  (That \<open>dealer_turn\<close> and
  \<open>calculate_while\<close> are total functions is their termination proofs above: every
  iteration shortens the deck, or lowers the ace counter.)
\<close>

theorem dealer_turn_terminates:
  "((dealer_turn h d = Inl IndexError \<and>
      total (foldl add_card h (rev d)) < 17 \<and> trigger (foldl add_card h (rev d))) \<or>
   (\<exists>h' d' drawn. dealer_turn h d = Inr (total h', h', d') \<and>
      d = d' @ rev drawn \<and> h' = foldl add_card h drawn \<and> length drawn \<le> length d)) \<and>
   (\<exists>k. 0 \<le> k \<and> k \<le> max 0 aces \<and> calculate_while tot aces = tot - 10 * k)"
proof -
  have loop: "(dealer_turn h d = Inl IndexError \<and>
      total (foldl add_card h (rev d)) < 17 \<and> trigger (foldl add_card h (rev d))) \<or>
   (\<exists>h' d' drawn. dealer_turn h d = Inr (total h', h', d') \<and>
      d = d' @ rev drawn \<and> h' = foldl add_card h drawn \<and> length drawn \<le> length d)"
  proof (cases "dealer_turn h d")
    case (Inl e)
    from dealer_turn_Inl [OF this] Inl show ?thesis by simp
  next
    case (Inr r)
    obtain t h' d' where "r = (t, h', d')" by (cases r)
    with Inr have r: "dealer_turn h d = Inr (t, h', d')" by simp
    from dealer_turn_Inr [OF r] obtain drawn where
      "d = d' @ rev drawn" "h' = foldl add_card h drawn" "t = total h'" by blast
    moreover from this(1) have "length drawn \<le> length d" by simp
    ultimately show ?thesis using r by blast
  qed
  have red: "\<exists>k. 0 \<le> k \<and> k \<le> max 0 aces \<and> calculate_while tot aces = tot - 10 * k"
  proof (cases "0 \<le> aces")
    case True
    from calculate_while_steps [OF this, of tot] True show ?thesis by auto
  next
    case False
    then have "calculate_while tot aces = tot" by (simp add: calculate_while_stop)
    then show ?thesis by (intro exI [of _ 0]) simp
  qed
  from loop red show ?thesis by blast
qed

theorem dealer_turn_terminates_witness:
  "((dealer_turn Hand_init [] = Inl IndexError \<and>
      total (foldl add_card Hand_init (rev [])) < 17 \<and>
      trigger (foldl add_card Hand_init (rev []))) \<or>
   (\<exists>h' d' drawn. dealer_turn Hand_init [] = Inr (total h', h', d') \<and>
      [] = d' @ rev drawn \<and> h' = foldl add_card Hand_init drawn \<and>
      length drawn \<le> length ([]::card list))) \<and>
   (\<exists>k. 0 \<le> k \<and> k \<le> max 0 2 \<and> calculate_while 32 2 = 32 - 10 * k)"
  by (rule dealer_turn_terminates)

section \<open>Properties of the settlement\<close>

subsection \<open>The blackjack payout in binary64 arithmetic\<close>

lemma bit_length_0: "bit_length 0 = 0"
  by (subst bit_length.simps) simp

lemma bit_length_pos: "0 < n \<Longrightarrow> bit_length n = Suc (bit_length (n div 2))"
  by (subst bit_length.simps) simp

lemma bit_length_1: "bit_length (Suc 0) = Suc 0"
  by (subst bit_length.simps) (simp add: bit_length_0)

lemma bit_length_Bit0: "bit_length (numeral (Num.Bit0 n)) = Suc (bit_length (numeral n))"
  by (subst bit_length.simps) simp

lemma bit_length_Bit1: "bit_length (numeral (Num.Bit1 n)) = Suc (bit_length (numeral n))"
  by (subst bit_length.simps) simp

lemma bl1: "bit_length 3002399751580333 = 52"
  by (simp add: bit_length_Bit0 bit_length_Bit1 bit_length_1)

lemma bl2: "bit_length 4503599627370499 = 53"
  by (simp add: bit_length_Bit0 bit_length_Bit1 bit_length_1)


lemma u1: "ulp 3002399751580333 = 1 / 2"
proof -
  have "nat \<lfloor>\<bar>3002399751580333::rat\<bar>\<rfloor> = 3002399751580333" by simp
  then show ?thesis by (simp add: ulp_def bl1)
qed

lemma r1: "round_half_even 6004799503160666 = 6004799503160666"
  by (simp add: round_half_even_def)

lemma rd1: "round_double 3002399751580333 = 3002399751580333"
  by (simp add: round_double_def u1 r1)

lemma f1: "float_of_int 3002399751580333 = Inr 3002399751580333"
  by (simp add: float_of_int_def rd1)

lemma fl2: "\<lfloor>9007199254740999 / 2 :: rat\<rfloor> = 4503599627370499"
  by (rule floor_unique) simp_all

lemma u2: "ulp (9007199254740999 / 2) = 1"
proof -
  have "nat \<lfloor>\<bar>9007199254740999 / 2::rat\<bar>\<rfloor> = 4503599627370499" by (simp add: fl2)
  then show ?thesis by (simp add: ulp_def bl2)
qed

lemma r2: "round_half_even (9007199254740999 / 2) = 4503599627370500"
  by (simp add: round_half_even_def fl2)

lemma rd2: "round_double (9007199254740999 / 2) = 4503599627370500"
  by (simp add: round_double_def u2 r2)

lemma f2: "float_mul 3002399751580333 (3 / 2) = Finite 4503599627370500"
proof -
  have "(3002399751580333::rat) * (3 / 2) = 9007199254740999 / 2" by simp
  then show ?thesis by (simp add: float_mul_def rd2)
qed


lemma score_AK: "score [Card (suits ! 0) ''A'', Card (suits ! 0) ''K''] = 21"
  by (simp add: score_eq rank_Card raw_total_def ace_count_def rank_value_ranks rank_is_ace_ranks
        calculate_while_stop)

lemma score_98: "score [Card (suits ! 2) ''9'', Card (suits ! 3) ''8''] = 17"
  by (simp add: score_eq rank_Card raw_total_def ace_count_def rank_value_ranks rank_is_ace_ranks
        calculate_while_stop)

lemma score_777:
  "score [Card (suits ! 0) ''7'', Card (suits ! 2) ''7'', Card (suits ! 3) ''7''] = 21"
  by (simp add: score_eq rank_Card raw_total_def ace_count_def rank_value_ranks rank_is_ace_ranks
        calculate_while_stop)

lemma score_AK3: "score [Card (suits ! 3) ''A'', Card (suits ! 3) ''K''] = 21"
  by (simp add: score_eq rank_Card raw_total_def ace_count_def rank_value_ranks rank_is_ace_ranks
        calculate_while_stop)

lemma bit_length_le: "n < 2 ^ k \<Longrightarrow> bit_length n \<le> k"
proof (induction k arbitrary: n)
  case 0
  then show ?case by (simp add: bit_length_0)
next
  case (Suc k)
  show ?case
  proof (cases "n = 0")
    case True
    then show ?thesis by (simp add: bit_length_0)
  next
    case False
    from Suc.prems have "n div 2 < 2 ^ k" by simp
    then have "bit_length (n div 2) \<le> k" by (rule Suc.IH)
    with False show ?thesis by (simp add: bit_length_pos)
  qed
qed

lemma round_half_even_of_int: "round_half_even (of_int m) = m"
  by (simp add: round_half_even_def)

lemma round_double_half_int:
  assumes "\<bar>m\<bar> < 2 ^ 53"
  shows "round_double (of_int m / 2) = of_int m / 2"
proof -
  define q :: rat where "q = of_int m / 2"
  define k where "k = bit_length (nat \<lfloor>\<bar>q\<bar>\<rfloor>)"
  have "\<bar>q\<bar> < 2 ^ 52" using assms unfolding q_def
  proof -
    from assms have "(of_int \<bar>m\<bar> :: rat) < of_int (2 ^ 53)" by (simp only: of_int_less_iff)
    then show "\<bar>(of_int m :: rat) / 2\<bar> < 2 ^ 52" by simp
  qed
  then have "\<lfloor>\<bar>q\<bar>\<rfloor> < 2 ^ 52" by (simp add: floor_less_iff)
  then have "nat \<lfloor>\<bar>q\<bar>\<rfloor> < nat (2 ^ 52)" by (simp only: zless_nat_conj) simp
  then have "nat \<lfloor>\<bar>q\<bar>\<rfloor> < 2 ^ 52" by (simp only: nat_power_eq nat_numeral)
  then have k52: "k \<le> 52" unfolding k_def by (rule bit_length_le)
  then have e: "53 - k = Suc (52 - k)" by simp
  have u: "ulp q = 1 / (2 * 2 ^ (52 - k))"
    using k52 by (simp add: ulp_def k_def [symmetric] e)
  have "q / ulp q = q * (2 * 2 ^ (52 - k))"
    by (simp only: u) simp
  also have "\<dots> = of_int (m * 2 ^ (52 - k))"
    by (simp add: q_def)
  finally have "q / ulp q = of_int (m * 2 ^ (52 - k))" .
  then have "round_half_even (q / ulp q) = m * 2 ^ (52 - k)"
    by (simp only: round_half_even_of_int)
  then have "round_double q = of_int (m * 2 ^ (52 - k)) * (1 / (2 * 2 ^ (52 - k)))"
    by (simp only: round_double_def u)
  also have "\<dots> = q" by (simp add: q_def)
  finally show ?thesis by (simp add: q_def)
qed

lemma float_of_int_exact:
  assumes "\<bar>B\<bar> < 2 ^ 52"
  shows "float_of_int B = Inr (of_int B)"
proof -
  from assms have "\<bar>2 * B\<bar> < 2 ^ 53" by simp
  then have "round_double (of_int (2 * B) / 2) = of_int (2 * B) / 2"
    by (rule round_double_half_int)
  then have r: "round_double (of_int B) = of_int B" by simp
  from assms have "(of_int \<bar>B\<bar> :: rat) < of_int (2 ^ 52)" by (simp only: of_int_less_iff)
  then have "\<bar>of_int B :: rat\<bar> < 2 ^ 52" by simp
  also have "(2 ^ 52 :: rat) \<le> 2 ^ 1024" by (rule power_increasing) simp_all
  finally have "\<not> (2 ^ 1024 \<le> \<bar>of_int B :: rat\<bar>)" by simp
  with r show ?thesis by (simp add: float_of_int_def)
qed

lemma float_mul_exact:
  assumes "\<bar>3 * B\<bar> < 2 ^ 53"
  shows "float_mul (of_int B) (3 / 2) = Finite (of_int (3 * B) / 2)"
proof -
  have p: "(of_int B :: rat) * (3 / 2) = of_int (3 * B) / 2" by simp
  have r: "round_double (of_int (3 * B) / 2) = of_int (3 * B) / 2"
    using assms by (rule round_double_half_int)
  from assms have "(of_int \<bar>3 * B\<bar> :: rat) < of_int (2 ^ 53)" by (simp only: of_int_less_iff)
  then have "\<bar>of_int (3 * B) / 2 :: rat\<bar> < 2 ^ 52" by simp
  also have "(2 ^ 52 :: rat) \<le> 2 ^ 1024" by (rule power_increasing) simp_all
  finally have b: "\<bar>of_int (3 * B) / 2 :: rat\<bar> < 2 ^ 1024" .
  then have "\<not> (2 ^ 1024 \<le> (of_int (3 * B) / 2 :: rat))" "\<not> ((of_int (3 * B) / 2 :: rat) \<le> - (2 ^ 1024))"
    by linarith+
  then show ?thesis unfolding float_mul_def p r Let_def by (simp only: if_False)
qed

lemma blackjack_payout_exact:
  assumes "0 \<le> B" and "3 * B < 2 ^ 53"
  shows "(case float_of_int B of Inl e \<Rightarrow> Inl e | Inr x \<Rightarrow> int_of_float (float_mul x (3 / 2)))
         = Inr (3 * B div 2)"
proof -
  from assms have a: "\<bar>B\<bar> < 2 ^ 52" "\<bar>3 * B\<bar> < 2 ^ 53" by simp_all
  have "\<lfloor>of_int (3 * B) / of_int 2 :: rat\<rfloor> = 3 * B div 2" by (rule floor_divide_of_int_eq)
  then have fl: "\<lfloor>of_int (3 * B) / 2 :: rat\<rfloor> = 3 * B div 2" by simp
  from assms(1) have nn: "(0::rat) \<le> of_int (3 * B) / 2" by simp
  show ?thesis
    by (simp only: float_of_int_exact [OF a(1)] float_mul_exact [OF a(2)] sum.case
          int_of_float.simps nn if_True fl)
qed

lemma determine_winner_table:
  assumes "0 < B" and "3 * B < 2 ^ 53"
  shows "determine_winner p d B =
     Inr (if player_blackjack p \<and> dealer_blackjack d then 0
          else if player_blackjack p then 3 * B div 2
          else if dealer_blackjack d then - B
          else if \<not> trigger p then - B
          else if \<not> trigger d then B
          else if total d < total p then B
          else if total p < total d then - B
          else 0)"
proof -
  from assms have "0 \<le> B" by simp
  from blackjack_payout_exact [OF this assms(2)] show ?thesis
    by (simp add: determine_winner_def Let_def)
qed


text \<open>
  For a positive bet \<open>B\<close> with \<open>3 * B < 2 ^ 53\<close> the product \<open>B * 1.5\<close> is computed
  exactly, and \<open>determine_winner_table\<close> above is the ordered rule table of the
  specification with the payout \<open>\<lfloor>3 * B / 2\<rfloor>\<close> for a player blackjack.  Beyond that bound the
  product is rounded to a 53-bit significand before it is truncated.
\<close>

text \<open>
  \<^bold>\<open>C2\<close> (where the code leaves the rule table).  The player holds ace and king, the dealer
  nine and eight, and the bet is 3002399751580333.  Rule 2 promises the 3:2 payout
  \<open>\<lfloor>B * 1.5\<rfloor> = 4503599627370499\<close>; \<^verbatim>\<open>determine_winner\<close> returns 4503599627370500, because the
  exact product 4503599627370499.5 lies between two neighbouring binary64 numbers and is
  rounded to the even one.
\<close>

theorem blackjack_payout_off_by_one:
  "determine_winner (hand_of [Card (suits ! 0) ''A'', Card (suits ! 0) ''K''])
     (hand_of [Card (suits ! 2) ''9'', Card (suits ! 3) ''8'']) 3002399751580333
   = Inr 4503599627370500 \<and>
   \<lfloor>3002399751580333 * (3 / 2) :: rat\<rfloor> = 4503599627370499"
proof -
  have "\<lfloor>3002399751580333 * (3 / 2) :: rat\<rfloor> = 4503599627370499"
    by (rule floor_unique) simp_all
  then show ?thesis
    by (simp add: determine_winner_def player_blackjack_def dealer_blackjack_def
          cards_hand_of total_hand_of trigger_hand_of score_AK score_98 f1 f2)
qed

text \<open>
  \<^bold>\<open>C10\<close> (the same input).  The payout returned there is none of \<open>- B\<close>, \<open>0\<close>, \<open>B\<close> and
  \<open>\<lfloor>B * 3 / 2\<rfloor>\<close>, and its magnitude exceeds \<open>\<lfloor>B * 3 / 2\<rfloor>\<close>: \<^verbatim>\<open>int(B * 1.5)\<close> is not the floor
  of three halves of \<open>B\<close> for this \<open>B\<close>.
\<close>

theorem payout_outside_four_values:
  "determine_winner (hand_of [Card (suits ! 0) ''A'', Card (suits ! 0) ''K''])
     (hand_of [Card (suits ! 2) ''9'', Card (suits ! 3) ''8'']) 3002399751580333
   = Inr 4503599627370500 \<and>
   (4503599627370500::int) \<notin> {- 3002399751580333, 0, 3002399751580333,
                                3002399751580333 * 3 div 2} \<and>
   (3002399751580333::int) * 3 div 2 < \<bar>4503599627370500\<bar>"
  by (simp add: determine_winner_def player_blackjack_def dealer_blackjack_def
        cards_hand_of total_hand_of trigger_hand_of score_AK score_98 f1 f2)

subsection \<open>Hands of three or more cards\<close>

text \<open>
  A player hand of three sevens totals 21.  Against a dealer's ace and king it loses the
  bet: a three-card 21 is not always settled as a win or a tie.
\<close>

theorem three_card_21_loses_counterexample:
  "3 \<le> length (cards (hand_of [Card (suits ! 0) ''7'', Card (suits ! 2) ''7'', Card (suits ! 3) ''7''])) \<and>
   total (hand_of [Card (suits ! 0) ''7'', Card (suits ! 2) ''7'', Card (suits ! 3) ''7'']) = 21 \<and>
   determine_winner (hand_of [Card (suits ! 0) ''7'', Card (suits ! 2) ''7'', Card (suits ! 3) ''7''])
     (hand_of [Card (suits ! 3) ''A'', Card (suits ! 3) ''K'']) 10 = Inr (- 10)"
  by (simp add: determine_winner_def player_blackjack_def dealer_blackjack_def
        cards_hand_of total_hand_of trigger_hand_of score_777 score_AK3)

text \<open>
  \<^bold>\<open>C6\<close> (as the code has it).  The two blackjack flags of the settlement hold exactly for
  a hand of two cards with total 21.  A player hand of three or more cards with total 21 is
  not a blackjack and is never paid 3:2: it loses the bet against a dealer blackjack, ties
  against any other dealer total of 21, and wins the plain bet otherwise.
\<close>

theorem three_card_21_settlement:
  "player_blackjack h = (length (cards h) = 2 \<and> total h = 21) \<and>
   dealer_blackjack h = (length (cards h) = 2 \<and> total h = 21) \<and>
   (3 \<le> length ps \<and> total (hand_of ps) = 21 \<longrightarrow>
      \<not> player_blackjack (hand_of ps) \<and>
      determine_winner (hand_of ps) (hand_of ds) B =
        Inr (if dealer_blackjack (hand_of ds) then - B
             else if total (hand_of ds) = 21 then 0 else B))"
proof -
  have "\<not> player_blackjack (hand_of ps) \<and>
      determine_winner (hand_of ps) (hand_of ds) B =
        Inr (if dealer_blackjack (hand_of ds) then - B
             else if total (hand_of ds) = 21 then 0 else B)"
    if l: "3 \<le> length ps" and t: "total (hand_of ps) = 21"
  proof -
    from l have nb: "\<not> player_blackjack (hand_of ps)"
      by (simp add: player_blackjack_def cards_hand_of)
    from t have tp: "trigger (hand_of ps)" by (simp add: trigger_hand_of total_hand_of)
    have td: "trigger (hand_of ds) = (total (hand_of ds) \<le> 21)"
      by (simp add: trigger_hand_of total_hand_of)
    from nb tp td t show ?thesis
      by (auto simp add: determine_winner_def Let_def)
  qed
  then show ?thesis by (simp add: player_blackjack_def dealer_blackjack_def)
qed


theorem three_card_21_settlement_witness:
  "3 \<le> length [Card (suits ! 0) ''7'', Card (suits ! 2) ''7'', Card (suits ! 3) ''7''] \<and>
   total (hand_of [Card (suits ! 0) ''7'', Card (suits ! 2) ''7'', Card (suits ! 3) ''7'']) = 21 \<and>
   \<not> player_blackjack (hand_of [Card (suits ! 0) ''7'', Card (suits ! 2) ''7'', Card (suits ! 3) ''7'']) \<and>
   determine_winner (hand_of [Card (suits ! 0) ''7'', Card (suits ! 2) ''7'', Card (suits ! 3) ''7''])
     (hand_of [Card (suits ! 2) ''9'', Card (suits ! 3) ''8'']) 5 = Inr 5"
proof -
  let ?p = "[Card (suits ! 0) ''7'', Card (suits ! 2) ''7'', Card (suits ! 3) ''7'']"
  let ?d = "[Card (suits ! 2) ''9'', Card (suits ! 3) ''8'']"
  have l: "3 \<le> length ?p" by simp
  have t: "total (hand_of ?p) = 21" by (simp only: total_hand_of score_777)
  have nd: "\<not> dealer_blackjack (hand_of ?d)"
    by (simp add: dealer_blackjack_def total_hand_of score_98)
  have n21: "total (hand_of ?d) \<noteq> 21" by (simp add: total_hand_of score_98)
  from three_card_21_settlement [of Hand_init ?p ?d 5] l t
  have "\<not> player_blackjack (hand_of ?p) \<and>
      determine_winner (hand_of ?p) (hand_of ?d) 5 =
        Inr (if dealer_blackjack (hand_of ?d) then - 5
             else if total (hand_of ?d) = 21 then 0 else 5)" by blast
  with nd n21 l t show ?thesis by simp
qed


end
